theory Spec2Isabelle
  imports Complex_Main "HOL-Library.AList" "HOL-Library.Multiset"
begin

section \<open>Paths\<close>

text \<open>
  The script handles a folder both as a plain string (\<^verbatim>\<open>os.path\<close> functions,
  \<^verbatim>\<open>str.endswith\<close>) and as a \<^verbatim>\<open>pathlib.Path\<close>. A path object is modelled by its
  anchor (absolute or not) and its segments. Parsing drops empty and \<^verbatim>\<open>.\<close> segments, as
  pathlib does; a \<^verbatim>\<open>..\<close> segment is kept as an ordinary name. Relative and absolute paths
  are looked up in the same tree: the working directory is the root of the modelled tree.
  There are no symbolic links and no permissions.
\<close>

type_synonym pypath = "bool \<times> string list"

fun split_sep :: "string \<Rightarrow> string list" where
  "split_sep [] = [[]]"
| "split_sep (c # cs) =
     (if c = CHR ''/'' then [] # split_sep cs
      else (case split_sep cs of [] \<Rightarrow> [[c]] | w # ws \<Rightarrow> (c # w) # ws))"

definition parts :: "string \<Rightarrow> string list" where
  "parts s = filter (\<lambda>w. w \<noteq> [] \<and> w \<noteq> ''.'') (split_sep s)"

definition is_abs :: "string \<Rightarrow> bool" where
  "is_abs s = (case s of [] \<Rightarrow> False | c # _ \<Rightarrow> c = CHR ''/'')"

definition Path :: "string \<Rightarrow> pypath" where
  "Path s = (is_abs s, parts s)"

fun join_sep :: "string list \<Rightarrow> string" where
  "join_sep [] = []"
| "join_sep [s] = s"
| "join_sep (s # t # ts) = s @ ''/'' @ join_sep (t # ts)"

definition str_of_path :: "pypath \<Rightarrow> string" where
  "str_of_path p =
     (if snd p = [] then (if fst p then ''/'' else ''.'')
      else (if fst p then ''/'' else []) @ join_sep (snd p))"

text \<open>\<^verbatim>\<open>os.path.basename\<close>: everything after the last slash.\<close>

definition basename :: "string \<Rightarrow> string" where
  "basename s = last (split_sep s)"

text \<open>The \<^verbatim>\<open>/\<close> operator of pathlib with a string on the right.\<close>

definition pjoin :: "pypath \<Rightarrow> string \<Rightarrow> pypath" where
  "pjoin p s = (if is_abs s then Path s else (fst p, snd p @ parts s))"

definition endswith :: "string \<Rightarrow> string \<Rightarrow> bool" where
  "endswith s suf =
     (length suf \<le> length s \<and> drop (length s - length suf) s = suf)"

section \<open>Results and reports\<close>

datatype exn =
    FileExistsError
  | NotADirectoryError
  | FileNotFoundError
  | IsADirectoryError
  | ValueError
  | OSError string

text \<open>
  One entry of \<^verbatim>\<open>self.results\<close>, with the keys prefixed by \<^verbatim>\<open>r_\<close>. Times are real numbers; the \<^verbatim>\<open>error\<close> key is present
  only in the entry the parallel collector writes for a worker that raised.
\<close>

record result =
  r_folder :: string
  r_success :: bool
  r_duration :: real
  r_error :: "exn option"
  r_timestamp :: real

record configuration =
  cfg_parallel :: bool
  cfg_docker :: bool
  cfg_dry_run :: bool
  cfg_continue_on_error :: bool
  cfg_docker_image :: "string option"

record summary =
  total_folders :: nat
  successful :: nat
  failed :: nat
  total_duration :: real
  configuration :: configuration
  rep_results :: "result list"
  rep_timestamp :: real

section \<open>The filesystem\<close>

text \<open>
  A directory is an association list from names to nodes (the first binding of a name
  counts). The JSON text of a persisted report is not modelled: the report file holds the
  summary itself.
\<close>

datatype content = Data string | Report summary

datatype node = File content | Dir "(string \<times> node) list"

fun lookup :: "node \<Rightarrow> string list \<Rightarrow> node option" where
  "lookup n [] = Some n"
| "lookup (File c) (s # ss) = None"
| "lookup (Dir es) (s # ss) =
     (case map_of es s of None \<Rightarrow> None | Some ch \<Rightarrow> lookup ch ss)"

definition exists :: "node \<Rightarrow> pypath \<Rightarrow> bool" where
  "exists t p = (lookup t (snd p) \<noteq> None)"

definition is_dir :: "node \<Rightarrow> pypath \<Rightarrow> bool" where
  "is_dir t p = (case lookup t (snd p) of Some (Dir es) \<Rightarrow> True | _ \<Rightarrow> False)"

definition is_file :: "node \<Rightarrow> pypath \<Rightarrow> bool" where
  "is_file t p = (case lookup t (snd p) of Some (File c) \<Rightarrow> True | _ \<Rightarrow> False)"

section \<open>Folder validation\<close>

definition indicators :: "string list" where
  "indicators = [''_subject.json'', ''unscaled_generic.osim'', ''trials/'']"

fun count_indicators :: "node \<Rightarrow> pypath \<Rightarrow> string list \<Rightarrow> nat \<Rightarrow> nat" where
  "count_indicators t folder_path [] found_indicators = found_indicators"
| "count_indicators t folder_path (indicator # rest) found_indicators =
     count_indicators t folder_path rest
       (if exists t (pjoin folder_path indicator) then found_indicators + 1
        else found_indicators)"

definition is_valid_test_data_folder :: "node \<Rightarrow> pypath \<Rightarrow> bool" where
  "is_valid_test_data_folder t folder_path =
     (count_indicators t folder_path indicators 0 \<ge> 2)"

section \<open>Filesystem operations\<close>

text \<open>
  \<^verbatim>\<open>Path.mkdir(parents=True, exist_ok=True)\<close>: missing directories along the path are
  created; an existing directory is left as it is; a regular file in the way raises.
\<close>

fun mkdir_p :: "node \<Rightarrow> string list \<Rightarrow> exn + node" where
  "mkdir_p (Dir es) [] = Inr (Dir es)"
| "mkdir_p (File c) [] = Inl FileExistsError"
| "mkdir_p (File c) (s # ss) = Inl NotADirectoryError"
| "mkdir_p (Dir es) (s # ss) =
     (case mkdir_p (case map_of es s of None \<Rightarrow> Dir [] | Some ch \<Rightarrow> ch) ss of
        Inl e \<Rightarrow> Inl e
      | Inr ch' \<Rightarrow> Inr (Dir (AList.update s ch' es)))"

text \<open>
  \<^verbatim>\<open>shutil.rmtree\<close>: the path has to be an existing directory. The root of the modelled
  tree cannot be removed.
\<close>

fun rmtree :: "node \<Rightarrow> string list \<Rightarrow> exn + node" where
  "rmtree n [] = Inl (OSError ''cannot remove the root'')"
| "rmtree (File c) (s # ss) = Inl NotADirectoryError"
| "rmtree (Dir es) [s] =
     (case map_of es s of
        None \<Rightarrow> Inl FileNotFoundError
      | Some (File c) \<Rightarrow> Inl NotADirectoryError
      | Some (Dir ds) \<Rightarrow> Inr (Dir (AList.delete s es)))"
| "rmtree (Dir es) (s # t # ts) =
     (case map_of es s of
        None \<Rightarrow> Inl FileNotFoundError
      | Some ch \<Rightarrow>
          (case rmtree ch (t # ts) of
             Inl e \<Rightarrow> Inl e
           | Inr ch' \<Rightarrow> Inr (Dir (AList.update s ch' es))))"

text \<open>Placing a node at a path, creating missing parent directories on the way.\<close>

fun put :: "node \<Rightarrow> string list \<Rightarrow> node \<Rightarrow> exn + node" where
  "put n [] v = Inl FileExistsError"
| "put (File c) (s # ss) v = Inl NotADirectoryError"
| "put (Dir es) [s] v = Inr (Dir (AList.update s v es))"
| "put (Dir es) (s # t # ts) v =
     (case put (case map_of es s of None \<Rightarrow> Dir [] | Some ch \<Rightarrow> ch) (t # ts) v of
        Inl e \<Rightarrow> Inl e
      | Inr ch' \<Rightarrow> Inr (Dir (AList.update s ch' es)))"

text \<open>
  \<^verbatim>\<open>shutil.copytree(src, dst)\<close>: the source has to be a directory and the destination
  must not exist. The copy is the source subtree as it was when the call started.
\<close>

definition copytree :: "node \<Rightarrow> string list \<Rightarrow> string list \<Rightarrow> exn + node" where
  "copytree t src dst =
     (case lookup t src of
        None \<Rightarrow> Inl FileNotFoundError
      | Some (File c) \<Rightarrow> Inl NotADirectoryError
      | Some (Dir es) \<Rightarrow>
          (if lookup t dst \<noteq> None then Inl FileExistsError else put t dst (Dir es)))"

text \<open>\<^verbatim>\<open>open(path, 'w')\<close> followed by writing the content: the parent has to exist.\<close>

fun write_file :: "node \<Rightarrow> string list \<Rightarrow> content \<Rightarrow> exn + node" where
  "write_file n [] c = Inl IsADirectoryError"
| "write_file (File d) (s # ss) c = Inl NotADirectoryError"
| "write_file (Dir es) [s] c =
     (case map_of es s of
        Some (Dir ds) \<Rightarrow> Inl IsADirectoryError
      | _ \<Rightarrow> Inr (Dir (AList.update s (File c) es)))"
| "write_file (Dir es) (s # t # ts) c =
     (case map_of es s of
        None \<Rightarrow> Inl FileNotFoundError
      | Some ch \<Rightarrow>
          (case write_file ch (t # ts) c of
             Inl e \<Rightarrow> Inl e
           | Inr ch' \<Rightarrow> Inr (Dir (AList.update s ch' es))))"

text \<open>\<^verbatim>\<open>Path.iterdir\<close>: the names bound in a directory, each once.\<close>

definition iterdir :: "(string \<times> node) list \<Rightarrow> string list" where
  "iterdir es = map fst (AList.clearjunk es)"

section \<open>The world and the external command\<close>

text \<open>
  The world is the filesystem, the wall clock, the trace of what the run did to the
  outside (commands invoked, reports persisted) and the lines written by plain
  \<^verbatim>\<open>print\<close>. The coloured, timestamped status lines of \<^verbatim>\<open>print_status\<close> are not modelled.

  The external command is a parameter: given the argument vector, the filesystem and the
  clock, it yields how the process ended, the filesystem it left and the time at which it
  ended. \<^verbatim>\<open>Failed\<close> stands for \<^verbatim>\<open>subprocess.run\<close> raising before the command completes.
\<close>

datatype event = Invoked "string list" | Persisted pypath summary

record world =
  fs :: node
  clock :: real
  events :: "event list"
  console :: "string list"

datatype proc = Completed int string string | Failed exn

type_synonym engine = "string list \<Rightarrow> node \<Rightarrow> real \<Rightarrow> proc \<times> node \<times> real"

definition subprocess_run :: "engine \<Rightarrow> string list \<Rightarrow> world \<Rightarrow> proc \<times> world" where
  "subprocess_run eng cmd w =
     (case eng cmd (fs w) (clock w) of
        (p, t', c') \<Rightarrow> (p, w\<lparr>fs := t', clock := c', events := events w @ [Invoked cmd]\<rparr>))"

text \<open>
  How a call ends: a returned value, a propagating exception, or \<^verbatim>\<open>sys.exit\<close> with a
  status.
\<close>

datatype 'a res = Ok 'a | Raise exn | Exit nat

section \<open>The runner\<close>

record runner =
  parallel :: bool
  use_docker :: bool
  output_dir :: pypath
  dry_run :: bool
  continue_on_error :: bool
  docker_image :: string
  engine_script :: string
  folders :: "string list"
  results :: "result list"

text \<open>The staging step of \<^verbatim>\<open>process_folder\<close> (the branch on the \<^verbatim>\<open>_original\<close> suffix).\<close>

definition stage_folder ::
  "runner \<Rightarrow> string \<Rightarrow> string \<Rightarrow> pypath \<Rightarrow> world \<Rightarrow> pypath res \<times> world" where
  "stage_folder self folder_path folder_name output_path w =
     (if endswith folder_name ''_original'' then
        (let clean_name = take (length folder_name - 9) folder_name;
             working_folder = pjoin output_path clean_name
         in if \<not> dry_run self then
              (case (if exists (fs w) working_folder
                     then rmtree (fs w) (snd working_folder) else Inr (fs w)) of
                 Inl e \<Rightarrow> (Raise e, w)
               | Inr t1 \<Rightarrow>
                   (case copytree t1 (snd (Path folder_path)) (snd working_folder) of
                      Inl e \<Rightarrow> (Raise e, w\<lparr>fs := t1\<rparr>)
                    | Inr t2 \<Rightarrow> (Ok working_folder, w\<lparr>fs := t2\<rparr>)))
            else (Ok working_folder, w))
      else (Ok (Path folder_path), w))"

definition engine_cmd :: "runner \<Rightarrow> pypath \<Rightarrow> string list" where
  "engine_cmd self working_folder =
     (if use_docker self then
        [''docker'', ''run'', ''--rm'', ''-it'', ''--platform'', ''linux/amd64'',
         ''-v'', str_of_path working_folder @ '':/test_data'',
         docker_image self, ''python3'', engine_script self, ''/test_data'']
      else [''python3'', engine_script self, str_of_path working_folder])"

text \<open>The engine step of \<^verbatim>\<open>process_folder\<close> (the dry-run return and the try block).\<close>

definition run_engine ::
  "engine \<Rightarrow> runner \<Rightarrow> string \<Rightarrow> pypath \<Rightarrow> world \<Rightarrow> (bool \<times> string \<times> real) res \<times> world"
  where
  "run_engine eng self folder_name working_folder w =
     (if dry_run self then (Ok (True, folder_name, 0), w)
      else
        (let start_time = clock w in
         case subprocess_run eng (engine_cmd self working_folder) w of
           (Completed returncode out err, w') \<Rightarrow>
             (if returncode = 0 then (Ok (True, folder_name, clock w' - start_time), w')
              else (Ok (False, folder_name, clock w' - start_time), w'))
         | (Failed e, w') \<Rightarrow> (Ok (False, folder_name, clock w' - start_time), w')))"

definition process_folder ::
  "engine \<Rightarrow> runner \<Rightarrow> string \<Rightarrow> world \<Rightarrow> (bool \<times> string \<times> real) res \<times> world" where
  "process_folder eng self folder_path w =
     (let folder_name = basename folder_path;
          output_path = pjoin (output_dir self) folder_name
      in case mkdir_p (fs w) (snd output_path) of
           Inl e \<Rightarrow> (Raise e, w)
         | Inr t1 \<Rightarrow>
             (case stage_folder self folder_path folder_name output_path (w\<lparr>fs := t1\<rparr>) of
                (Ok working_folder, w2) \<Rightarrow> run_engine eng self folder_name working_folder w2
              | (Raise e, w2) \<Rightarrow> (Raise e, w2)
              | (Exit n, w2) \<Rightarrow> (Exit n, w2)))"

section \<open>The orchestrator\<close>

fun validate_folders_loop :: "node \<Rightarrow> string list \<Rightarrow> bool" where
  "validate_folders_loop t [] = True"
| "validate_folders_loop t (folder # rest) =
     (if \<not> exists t (Path folder) then False
      else if \<not> is_dir t (Path folder) then False
      else validate_folders_loop t rest)"

definition validate_folders :: "runner \<Rightarrow> world \<Rightarrow> bool" where
  "validate_folders self w = validate_folders_loop (fs w) (folders self)"

text \<open>
  The loop of \<^verbatim>\<open>process_folders_sequential\<close>. The two counters only feed the closing
  status line.
\<close>

fun sequential_loop ::
  "engine \<Rightarrow> runner \<Rightarrow> string list \<Rightarrow> nat \<Rightarrow> nat \<Rightarrow> world \<Rightarrow> unit res \<times> runner \<times> world"
  where
  "sequential_loop eng self [] success_count failure_count w = (Ok (), self, w)"
| "sequential_loop eng self (folder # rest) success_count failure_count w =
     (case process_folder eng self folder w of
        (Ok (success, folder_name, duration), w1) \<Rightarrow>
          (let self1 = self\<lparr>results := results self @
                 [\<lparr>r_folder = folder_name, r_success = success, r_duration = duration,
                   r_error = None, r_timestamp = clock w1\<rparr>]\<rparr>
           in if success then sequential_loop eng self1 rest (success_count + 1) failure_count w1
              else if \<not> continue_on_error self1 then (Exit 1, self1, w1)
              else sequential_loop eng self1 rest success_count (failure_count + 1) w1)
      | (Raise e, w1) \<Rightarrow> (Raise e, self, w1)
      | (Exit n, w1) \<Rightarrow> (Exit n, self, w1))"

definition process_folders_sequential ::
  "engine \<Rightarrow> runner \<Rightarrow> world \<Rightarrow> unit res \<times> runner \<times> world" where
  "process_folders_sequential eng self w = sequential_loop eng self (folders self) 0 0 w"

text \<open>
  The order in which the futures complete is not determined by the program. It is a
  parameter: a list of picks, each choosing one of the folders still pending. Every list
  of picks yields a permutation of the folders. The workers are modelled as running one
  after the other in completion order; interleavings inside \<^verbatim>\<open>process_folder\<close> are not
  modelled.
\<close>

fun pick_order :: "nat list \<Rightarrow> 'a list \<Rightarrow> 'a list" where
  "pick_order ks [] = []"
| "pick_order [] (x # xs) = x # xs"
| "pick_order (k # ks) (x # xs) =
     (let i = k mod length (x # xs)
      in (x # xs) ! i # pick_order ks (take i (x # xs) @ drop (Suc i) (x # xs)))"

fun collect_loop ::
  "engine \<Rightarrow> runner \<Rightarrow> string list \<Rightarrow> world \<Rightarrow> unit res \<times> runner \<times> world" where
  "collect_loop eng self [] w = (Ok (), self, w)"
| "collect_loop eng self (folder # rest) w =
     (case process_folder eng self folder w of
        (Ok (success, folder_name, duration), w1) \<Rightarrow>
          collect_loop eng
            (self\<lparr>results := results self @
               [\<lparr>r_folder = folder_name, r_success = success, r_duration = duration,
                 r_error = None, r_timestamp = clock w1\<rparr>]\<rparr>) rest w1
      | (Raise e, w1) \<Rightarrow>
          collect_loop eng
            (self\<lparr>results := results self @
               [\<lparr>r_folder = folder, r_success = False, r_duration = 0,
                 r_error = Some e, r_timestamp = clock w1\<rparr>]\<rparr>) rest w1
      | (Exit n, w1) \<Rightarrow> (Exit n, self, w1))"

text \<open>A pool of \<^verbatim>\<open>min(len(self.folders), 4)\<close> workers; a pool of no workers is refused.\<close>

definition process_folders_parallel ::
  "engine \<Rightarrow> nat list \<Rightarrow> runner \<Rightarrow> world \<Rightarrow> unit res \<times> runner \<times> world" where
  "process_folders_parallel eng sched self w =
     (if min (length (folders self)) 4 = 0 then (Raise ValueError, self, w)
      else collect_loop eng self (pick_order sched (folders self)) w)"

definition make_summary :: "runner \<Rightarrow> world \<Rightarrow> summary" where
  "make_summary self w =
     \<lparr>total_folders = length (folders self),
      successful = length (filter (\<lambda>r. r_success r) (results self)),
      failed = length (filter (\<lambda>r. \<not> r_success r) (results self)),
      total_duration = sum_list (map r_duration (results self)),
      configuration =
        \<lparr>cfg_parallel = parallel self, cfg_docker = use_docker self,
         cfg_dry_run = dry_run self, cfg_continue_on_error = continue_on_error self,
         cfg_docker_image = (if use_docker self then Some (docker_image self) else None)\<rparr>,
      rep_results = results self,
      rep_timestamp = clock w\<rparr>"

definition save_results :: "runner \<Rightarrow> world \<Rightarrow> unit res \<times> world" where
  "save_results self w =
     (let results_file = pjoin (output_dir self) ''processing_results.json'';
          summary = make_summary self w
      in case write_file (fs w) (snd results_file) (Report summary) of
           Inl e \<Rightarrow> (Raise e, w)
         | Inr t' \<Rightarrow>
             (Ok (), w\<lparr>fs := t', events := events w @ [Persisted results_file summary]\<rparr>))"

definition run :: "engine \<Rightarrow> nat list \<Rightarrow> runner \<Rightarrow> world \<Rightarrow> unit res \<times> runner \<times> world"
  where
  "run eng sched self w =
     (if \<not> validate_folders self w then (Exit 1, self, w)
      else
        (case (if parallel self then process_folders_parallel eng sched self w
               else process_folders_sequential eng self w) of
           (Ok u, self1, w1) \<Rightarrow>
             (case save_results self1 w1 of
                (Ok u', w2) \<Rightarrow> (Ok (), self1, w2)
              | (Raise e, w2) \<Rightarrow> (Raise e, self1, w2)
              | (Exit n, w2) \<Rightarrow> (Exit n, self1, w2))
         | (Raise e, self1, w1) \<Rightarrow> (Raise e, self1, w1)
         | (Exit n, self1, w1) \<Rightarrow> (Exit n, self1, w1)))"

section \<open>Discovery and the entry point\<close>

definition find_test_data_folders :: "node \<Rightarrow> string \<Rightarrow> exn + string list" where
  "find_test_data_folders t directory_path =
     (let directory = Path directory_path
      in if \<not> exists t directory then Inr []
         else
           (case lookup t (snd directory) of
              Some (Dir es) \<Rightarrow>
                Inr (map str_of_path
                      (filter (\<lambda>item. is_dir t item \<and> is_valid_test_data_folder t item)
                         (map (pjoin directory) (iterdir es))))
            | _ \<Rightarrow> Inl NotADirectoryError))"

text \<open>
  The loop over \<^verbatim>\<open>args.paths\<close> in \<^verbatim>\<open>main\<close>: the folders found so far and the lines
  printed so far are threaded through.
\<close>

fun resolve_paths ::
  "node \<Rightarrow> string list \<Rightarrow> string list \<Rightarrow> string list \<Rightarrow> exn + (string list \<times> string list)"
  where
  "resolve_paths t [] all_folders out = Inr (all_folders, out)"
| "resolve_paths t (path # rest) all_folders out =
     (if is_file t (Path path) then resolve_paths t rest all_folders out
      else if is_dir t (Path path) then
        (if is_valid_test_data_folder t (Path path)
         then resolve_paths t rest (all_folders @ [path]) out
         else
           (case find_test_data_folders t path of
              Inl e \<Rightarrow> Inl e
            | Inr found_folders \<Rightarrow>
                (if found_folders \<noteq> []
                 then resolve_paths t rest (all_folders @ found_folders) out
                 else resolve_paths t rest all_folders
                        (out @ [''WARNING: No valid test_data folders found in '' @ path]))))
      else resolve_paths t rest all_folders
             (out @ [''WARNING: Path does not exist: '' @ path]))"

record args =
  paths :: "string list"
  arg_parallel :: bool
  arg_docker :: bool
  arg_output_dir :: string
  arg_dry_run :: bool
  arg_continue_on_error :: bool
  arg_docker_image :: string
  arg_engine_script :: string

text \<open>\<^verbatim>\<open>MultiEngineRunner.__init__\<close>: the fields are set and the output directory is created.\<close>

definition init :: "args \<Rightarrow> string list \<Rightarrow> world \<Rightarrow> runner res \<times> world" where
  "init a all_folders w =
     (let self = \<lparr>parallel = arg_parallel a, use_docker = arg_docker a,
                  output_dir = Path (arg_output_dir a), dry_run = arg_dry_run a,
                  continue_on_error = arg_continue_on_error a,
                  docker_image = arg_docker_image a, engine_script = arg_engine_script a,
                  folders = all_folders, results = []\<rparr>
      in case mkdir_p (fs w) (snd (output_dir self)) of
           Inl e \<Rightarrow> (Raise e, w)
         | Inr t' \<Rightarrow> (Ok self, w\<lparr>fs := t'\<rparr>))"

text \<open>
  \<^verbatim>\<open>main\<close> after argument parsing. Besides the way the process ends and the world it
  leaves, the model yields the runner that was built (none when the run ended before),
  so that its results can be inspected.
\<close>

definition main ::
  "engine \<Rightarrow> nat list \<Rightarrow> args \<Rightarrow> world \<Rightarrow> unit res \<times> runner option \<times> world" where
  "main eng sched a w =
     (case resolve_paths (fs w) (paths a) [] (console w) of
        Inl e \<Rightarrow> (Raise e, None, w)
      | Inr (all_folders, out) \<Rightarrow>
          (if all_folders = []
           then (Exit 1, None,
                 w\<lparr>console := out @ [''ERROR: No valid test_data folders found'']\<rparr>)
           else
             (case init a all_folders (w\<lparr>console := out\<rparr>) of
                (Ok self, w1) \<Rightarrow>
                  (case run eng sched self w1 of (r, self', w2) \<Rightarrow> (r, Some self', w2))
              | (Raise e, w1) \<Rightarrow> (Raise e, None, w1)
              | (Exit n, w1) \<Rightarrow> (Exit n, None, w1))))"

text \<open>
  The status the process ends with: zero after a normal return, the argument of
  \<^verbatim>\<open>sys.exit\<close>, and one when an exception reaches the top level.
\<close>

fun exit_status :: "unit res \<Rightarrow> nat" where
  "exit_status (Ok u) = 0"
| "exit_status (Exit n) = n"
| "exit_status (Raise e) = 1"

section \<open>Example inputs\<close>

text \<open>
  Two work units, \<^verbatim>\<open>a_original\<close> and \<^verbatim>\<open>b\<close>, and a regular file beside them; an external
  command that always succeeds and one that fails exactly when it is run on the staged
  copy of \<^verbatim>\<open>a_original\<close>.
\<close>

definition example_tree :: node where
  "example_tree =
     Dir [(''a_original'', Dir [(''_subject.json'', File (Data ''s'')), (''trials'', Dir [])]),
          (''b'', Dir [(''_subject.json'', File (Data ''s'')),
                       (''unscaled_generic.osim'', File (Data ''m''))]),
          (''notes.txt'', File (Data ''n''))]"

definition example_world :: world where
  "example_world = \<lparr>fs = example_tree, clock = 0, events = [], console = []\<rparr>"

definition example_engine_ok :: engine where
  "example_engine_ok cmd t c = (Completed 0 [] [], t, c + 1)"

definition example_engine_a_fails :: engine where
  "example_engine_a_fails cmd t c =
     (if last cmd = ''results/a_original/a'' then (Completed 1 [] ''boom'', t, c + 2)
      else (Completed 0 [] [], t, c + 1))"

definition example_runner :: runner where
  "example_runner =
     \<lparr>parallel = False, use_docker = False, output_dir = (False, [''results'']),
      dry_run = False, continue_on_error = False, docker_image = ''kswami235/addbio'',
      engine_script = ''engine.py'', folders = [''a_original'', ''b''], results = []\<rparr>"

definition example_args :: args where
  "example_args =
     \<lparr>paths = [''notes.txt'', ''a_original'', ''b''], arg_parallel = False,
      arg_docker = False, arg_output_dir = ''results'', arg_dry_run = False,
      arg_continue_on_error = False, arg_docker_image = ''kswami235/addbio'',
      arg_engine_script = ''engine.py''\<rparr>"

section \<open>Further example trees\<close>

definition example_tree_out :: node where
  "example_tree_out =
     Dir [(''a_original'', Dir [(''_subject.json'', File (Data ''s'')), (''trials'', Dir [])]),
          (''b'', Dir [(''_subject.json'', File (Data ''s'')),
                       (''unscaled_generic.osim'', File (Data ''m''))]),
          (''notes.txt'', File (Data ''n'')),
          (''results'', Dir [(''a_original'', Dir [])])]"

definition example_tree_staged :: node where
  "example_tree_staged =
     Dir [(''a_original'', Dir [(''_subject.json'', File (Data ''s'')), (''trials'', Dir [])]),
          (''b'', Dir [(''_subject.json'', File (Data ''s'')),
                       (''unscaled_generic.osim'', File (Data ''m''))]),
          (''notes.txt'', File (Data ''n'')),
          (''results'', Dir [(''a_original'',
             Dir [(''a'', Dir [(''_subject.json'', File (Data ''s'')), (''trials'', Dir [])])])])]"

definition example_tree_stale :: node where
  "example_tree_stale =
     Dir [(''a_original'', Dir [(''_subject.json'', File (Data ''s'')), (''trials'', Dir [])]),
          (''results'', Dir [(''a_original'', Dir [(''a'', File (Data ''old''))])])]"

definition example_tree_out_b :: node where
  "example_tree_out_b =
     Dir [(''a_original'', Dir [(''_subject.json'', File (Data ''s'')), (''trials'', Dir [])]),
          (''b'', Dir [(''_subject.json'', File (Data ''s'')),
                       (''unscaled_generic.osim'', File (Data ''m''))]),
          (''notes.txt'', File (Data ''n'')),
          (''results'', Dir [(''b'', Dir [])])]"

definition example_tree_report_dir :: node where
  "example_tree_report_dir =
     Dir [(''a_original'', Dir [(''_subject.json'', File (Data ''s'')), (''trials'', Dir [])]),
          (''b'', Dir [(''_subject.json'', File (Data ''s'')),
                       (''unscaled_generic.osim'', File (Data ''m''))]),
          (''results'', Dir [(''processing_results.json'', Dir [])])]"

definition example_tree_out_file :: node where
  "example_tree_out_file =
     Dir [(''a_original'', Dir [(''_subject.json'', File (Data ''s'')), (''trials'', Dir [])]),
          (''b'', Dir [(''_subject.json'', File (Data ''s'')),
                       (''unscaled_generic.osim'', File (Data ''m''))]),
          (''notes.txt'', File (Data ''n'')),
          (''results'', File (Data ''x''))]"

section \<open>Postconditions used in the proofs\<close>

text \<open>What the sequential loop leaves behind, by the way it ended.\<close>

definition seq_post :: "runner \<Rightarrow> string list \<Rightarrow> unit res \<Rightarrow> result list \<Rightarrow> bool" where
  "seq_post self xs r rs =
     ((r = Ok () \<longrightarrow>
         list_all2 (\<lambda>res f. r_folder res = basename f \<and> r_error res = None) rs xs
         \<and> (\<not> continue_on_error self \<longrightarrow> (\<forall>res\<in>set rs. r_success res)))
      \<and> (\<forall>n. r = Exit n \<longrightarrow>
            n = 1 \<and> \<not> continue_on_error self \<and> rs \<noteq> [] \<and> \<not> r_success (last rs)
            \<and> (\<forall>res\<in>set (butlast rs). r_success res)))"

text \<open>The reports persisted along a trace, oldest first.\<close>

fun persisted :: "event list \<Rightarrow> summary list" where
  "persisted [] = []"
| "persisted (Invoked cmd # es) = persisted es"
| "persisted (Persisted p rep # es) = rep # persisted es"

text \<open>Segments as parsing produces them: not empty, not a dot, without a slash.\<close>

definition clean :: "string list \<Rightarrow> bool" where
  "clean ss = (\<forall>s\<in>set ss. s \<noteq> [] \<and> s \<noteq> ''.'' \<and> CHR ''/'' \<notin> set s)"

section \<open>Facts about paths and lookups\<close>

lemma lookup_append:
  "lookup n (ps @ qs) = (case lookup n ps of None \<Rightarrow> None | Some m \<Rightarrow> lookup m qs)"
proof (induction ps arbitrary: n)
  case Nil
  show ?case by simp
next
  case (Cons s ss)
  show ?case
  proof (cases n)
    case (File c)
    then show ?thesis by simp
  next
    case (Dir es)
    then show ?thesis using Cons.IH by (simp split: option.splits)
  qed
qed

lemma parts_subject: "parts ''_subject.json'' = [''_subject.json'']"
  by (simp add: parts_def)

lemma parts_osim: "parts ''unscaled_generic.osim'' = [''unscaled_generic.osim'']"
  by (simp add: parts_def)

lemma parts_trials: "parts ''trials/'' = [''trials'']"
  by (simp add: parts_def)

lemma pjoin_subject: "pjoin p ''_subject.json'' = (fst p, snd p @ [''_subject.json''])"
  by (simp add: pjoin_def is_abs_def parts_subject)

lemma pjoin_osim:
  "pjoin p ''unscaled_generic.osim'' = (fst p, snd p @ [''unscaled_generic.osim''])"
  by (simp add: pjoin_def is_abs_def parts_osim)

lemma pjoin_trials: "pjoin p ''trials/'' = (fst p, snd p @ [''trials''])"
  by (simp add: pjoin_def is_abs_def parts_trials)

lemma child_of_non_dir:
  "\<not> is_dir t p \<Longrightarrow> \<not> exists t (a, snd p @ [s])"
  by (cases "lookup t (snd p)")
     (auto simp: is_dir_def exists_def lookup_append split: node.splits)

section \<open>Facts about the filesystem operations\<close>

lemma lookup_put: "put t p v = Inr t' \<Longrightarrow> lookup t' p = Some v"
proof (induction t p v arbitrary: t' rule: put.induct)
  case (4 es s u us v)
  then show ?case
    by (auto simp: update_conv' split: sum.splits)
qed (auto simp: update_conv')

lemma copytree_result:
  assumes "copytree t src dst = Inr t'"
  shows "\<exists>es. lookup t src = Some (Dir es) \<and> lookup t dst = None \<and> lookup t' dst = Some (Dir es)"
  using assms
  by (auto simp: copytree_def lookup_put split: option.splits node.splits if_splits)

lemma endswith_append: "endswith (X @ suf) suf"
  by (simp add: endswith_def)

section \<open>The examples, evaluated\<close>

lemma basename_a_original: "basename ''a_original'' = ''a_original''"
  by (simp add: basename_def)

lemma basename_b: "basename ''b'' = ''b''"
  by (simp add: basename_def)

lemma parts_a_original: "parts ''a_original'' = [''a_original'']"
  by (simp add: parts_def)

lemma parts_a: "parts ''a'' = [''a'']"
  by (simp add: parts_def)

lemma parts_b: "parts ''b'' = [''b'']"
  by (simp add: parts_def)

lemma endswith_a_original: "endswith ''a_original'' ''_original''"
  by (simp add: endswith_def)

lemma endswith_b: "\<not> endswith ''b'' ''_original''"
  by (simp add: endswith_def)

lemma pjoin_a_original: "pjoin (a, ss) ''a_original'' = (a, ss @ [''a_original''])"
  by (simp add: pjoin_def is_abs_def parts_a_original)

lemma pjoin_a: "pjoin (a, ss) ''a'' = (a, ss @ [''a''])"
  by (simp add: pjoin_def is_abs_def parts_a)

lemma pjoin_b: "pjoin (a, ss) ''b'' = (a, ss @ [''b''])"
  by (simp add: pjoin_def is_abs_def parts_b)

lemma Path_a_original: "Path ''a_original'' = (False, [''a_original''])"
  by (simp add: Path_def is_abs_def parts_a_original)

lemma Path_b: "Path ''b'' = (False, [''b''])"
  by (simp add: Path_def is_abs_def parts_b)

lemma str_staged_a: "str_of_path (False, [''results'', ''a_original'', ''a'']) = ''results/a_original/a''"
  by (simp add: str_of_path_def)

lemma str_b: "str_of_path (False, [''b'']) = ''b''"
  by (simp add: str_of_path_def)

lemmas example_paths = basename_a_original basename_b endswith_a_original endswith_b
  pjoin_a_original pjoin_a pjoin_b Path_a_original Path_b str_staged_a str_b

lemma mkdir_example_a: "mkdir_p example_tree [''results'', ''a_original''] = Inr example_tree_out"
  by (simp add: example_tree_def example_tree_out_def)

lemma stage_example_a:
  "stage_folder example_runner ''a_original'' ''a_original'' (False, [''results'', ''a_original''])
     (example_world\<lparr>fs := example_tree_out\<rparr>)
   = (Ok (False, [''results'', ''a_original'', ''a'']), example_world\<lparr>fs := example_tree_staged\<rparr>)"
  by (simp add: stage_folder_def example_paths example_runner_def example_world_def
      example_tree_out_def example_tree_staged_def exists_def copytree_def Let_def)

lemma cmd_example_a:
  "engine_cmd example_runner (False, [''results'', ''a_original'', ''a''])
     = [''python3'', ''engine.py'', ''results/a_original/a'']"
  by (simp add: engine_cmd_def example_runner_def str_staged_a)

lemma mkdir_example_b: "mkdir_p example_tree [''results'', ''b''] = Inr example_tree_out_b"
  by (simp add: example_tree_def example_tree_out_b_def)

lemma cmd_example_b: "engine_cmd example_runner (False, [''b'']) = [''python3'', ''engine.py'', ''b'']"
  by (simp add: engine_cmd_def example_runner_def str_b)

lemma process_example_a_ok:
  "process_folder example_engine_ok example_runner ''a_original'' example_world =
     (Ok (True, ''a_original'', 1),
      \<lparr>fs = example_tree_staged, clock = 1,
       events = [Invoked [''python3'', ''engine.py'', ''results/a_original/a'']], console = []\<rparr>)"
  using stage_example_a
  by (simp add: process_folder_def Let_def example_paths example_runner_def mkdir_example_a
      run_engine_def subprocess_run_def cmd_example_a [unfolded example_runner_def]
      example_engine_ok_def example_world_def)

lemma process_example_b_ok:
  "process_folder example_engine_ok example_runner ''b'' example_world =
     (Ok (True, ''b'', 1),
      \<lparr>fs = example_tree_out_b, clock = 1,
       events = [Invoked [''python3'', ''engine.py'', ''b'']], console = []\<rparr>)"
  by (simp add: process_folder_def stage_folder_def Let_def example_paths example_runner_def
      mkdir_example_b run_engine_def subprocess_run_def cmd_example_b [unfolded example_runner_def]
      example_engine_ok_def example_world_def)

section \<open>Facts about processing one folder\<close>

lemma stage_folder_no_exit: "stage_folder self fp name op w \<noteq> (Exit n, w')"
  by (auto simp: stage_folder_def Let_def split: sum.splits if_splits)

lemma run_engine_returns:
  "\<exists>b d w'. run_engine eng self name wd w = (Ok (b, name, d), w')"
  by (auto simp: run_engine_def Let_def split: prod.splits proc.splits)

lemma process_folder_cases:
  obtains (mkdir_fault) e where
      "mkdir_p (fs w) (snd (pjoin (output_dir self) (basename fp))) = Inl e"
      "process_folder eng self fp w = (Raise e, w)"
  | (stage_fault) t1 e w2 where
      "mkdir_p (fs w) (snd (pjoin (output_dir self) (basename fp))) = Inr t1"
      "stage_folder self fp (basename fp) (pjoin (output_dir self) (basename fp))
         (w\<lparr>fs := t1\<rparr>) = (Raise e, w2)"
      "process_folder eng self fp w = (Raise e, w2)"
  | (engine) t1 wd w2 where
      "mkdir_p (fs w) (snd (pjoin (output_dir self) (basename fp))) = Inr t1"
      "stage_folder self fp (basename fp) (pjoin (output_dir self) (basename fp))
         (w\<lparr>fs := t1\<rparr>) = (Ok wd, w2)"
      "process_folder eng self fp w = run_engine eng self (basename fp) wd w2"
proof (cases "mkdir_p (fs w) (snd (pjoin (output_dir self) (basename fp)))")
  case (Inl e)
  then have "process_folder eng self fp w = (Raise e, w)"
    by (simp add: process_folder_def Let_def)
  with Inl show ?thesis by (rule mkdir_fault)
next
  case (Inr t1)
  obtain sr w2 where st: "stage_folder self fp (basename fp)
      (pjoin (output_dir self) (basename fp)) (w\<lparr>fs := t1\<rparr>) = (sr, w2)"
    by (cases "stage_folder self fp (basename fp)
      (pjoin (output_dir self) (basename fp)) (w\<lparr>fs := t1\<rparr>)") auto
  show ?thesis
  proof (cases sr)
    case (Ok wd)
    with Inr st have "process_folder eng self fp w = run_engine eng self (basename fp) wd w2"
      by (simp add: process_folder_def Let_def)
    with Inr st Ok show ?thesis by (auto intro: engine)
  next
    case (Raise e)
    with Inr st have "process_folder eng self fp w = (Raise e, w2)"
      by (simp add: process_folder_def Let_def)
    with Inr st Raise show ?thesis by (auto intro: stage_fault)
  next
    case (Exit n)
    with st show ?thesis using stage_folder_no_exit by blast
  qed
qed

lemma process_folder_no_exit: "process_folder eng self fp w \<noteq> (Exit n, w')"
proof (cases rule: process_folder_cases [of w self fp eng])
  case (mkdir_fault e)
  then show ?thesis by simp
next
  case (stage_fault t1 e w2)
  then show ?thesis by simp
next
  case (engine t1 wd w2)
  then show ?thesis using run_engine_returns [of eng self "basename fp" wd w2] by auto
qed

lemma process_folder_name:
  assumes "process_folder eng self fp w = (Ok (b, name, d), w')"
  shows "name = basename fp"
proof (cases rule: process_folder_cases [of w self fp eng])
  case (mkdir_fault e)
  with assms show ?thesis by simp
next
  case (stage_fault t1 e w2)
  with assms show ?thesis by simp
next
  case (engine t1 wd w2)
  with assms show ?thesis using run_engine_returns [of eng self "basename fp" wd w2] by auto
qed

lemma stage_folder_results_irrelevant:
  "stage_folder (self\<lparr>results := rs\<rparr>) fp name op w = stage_folder self fp name op w"
  by (simp add: stage_folder_def)

lemma run_engine_results_irrelevant:
  "run_engine eng (self\<lparr>results := rs\<rparr>) name wd w = run_engine eng self name wd w"
  by (simp add: run_engine_def engine_cmd_def)

lemma process_folder_results_irrelevant:
  "process_folder eng (self\<lparr>results := rs\<rparr>) fp w = process_folder eng self fp w"
  by (simp add: process_folder_def Let_def stage_folder_results_irrelevant
      run_engine_results_irrelevant split: sum.splits prod.splits res.splits)

section \<open>Facts about the sequential loop\<close>

lemma sequential_loop_Raise:
  "process_folder eng self x w = (Raise e, w1) \<Longrightarrow>
   sequential_loop eng self (x # xs) sc fc w = (Raise e, self, w1)"
  by simp

lemma sequential_loop_Ok:
  "process_folder eng self x w = (Ok (b, name, d), w1) \<Longrightarrow>
   sequential_loop eng self (x # xs) sc fc w =
     (if b then
        sequential_loop eng
          (self\<lparr>results := results self @
             [\<lparr>r_folder = name, r_success = b, r_duration = d, r_error = None,
               r_timestamp = clock w1\<rparr>]\<rparr>) xs (sc + 1) fc w1
      else if \<not> continue_on_error self then
        (Exit 1,
         self\<lparr>results := results self @
             [\<lparr>r_folder = name, r_success = b, r_duration = d, r_error = None,
               r_timestamp = clock w1\<rparr>]\<rparr>, w1)
      else
        sequential_loop eng
          (self\<lparr>results := results self @
             [\<lparr>r_folder = name, r_success = b, r_duration = d, r_error = None,
               r_timestamp = clock w1\<rparr>]\<rparr>) xs sc (fc + 1) w1)"
  by (simp add: Let_def)

lemma process_folder_outcome:
  obtains (Ok) b name d w1 where "process_folder eng self x w = (Ok (b, name, d), w1)"
  | (Raise) e w1 where "process_folder eng self x w = (Raise e, w1)"
proof (cases "process_folder eng self x w")
  case (Pair pr w1)
  show ?thesis
  proof (cases pr)
    case (Ok tr)
    with Pair show ?thesis using that(1) by (cases tr) auto
  next
    case (Raise e)
    with Pair show ?thesis using that(2) by auto
  next
    case (Exit n)
    with Pair show ?thesis using process_folder_no_exit by blast
  qed
qed

lemma sequential_loop_counters:
  "sequential_loop eng self xs sc fc w = sequential_loop eng self xs sc' fc' w"
proof (induction xs arbitrary: self sc fc sc' fc' w)
  case Nil
  show ?case by simp
next
  case (Cons x xs)
  show ?case
  proof (cases rule: process_folder_outcome [of eng self x w])
    case (Ok b name d w1)
    show ?thesis
      unfolding sequential_loop_Ok [OF Ok]
      using Cons.IH [of _ "sc + 1" fc _ "sc' + 1" fc']
            Cons.IH [of _ sc "fc + 1" _ sc' "fc' + 1"]
      by simp
  next
    case (Raise e w1)
    show ?thesis unfolding sequential_loop_Raise [OF Raise] by simp
  qed
qed

lemma sequential_loop_append:
  "sequential_loop eng self (pre @ xs) sc fc w =
     (case sequential_loop eng self pre sc fc w of
        (Ok u, self1, w1) \<Rightarrow> sequential_loop eng self1 xs sc fc w1
      | (Raise e, self1, w1) \<Rightarrow> (Raise e, self1, w1)
      | (Exit n, self1, w1) \<Rightarrow> (Exit n, self1, w1))"
proof (induction pre arbitrary: self sc fc w)
  case Nil
  show ?case by simp
next
  case (Cons x pre)
  show ?case
  proof (cases rule: process_folder_outcome [of eng self x w])
    case (Ok b name d w1)
    have "sequential_loop eng self ((x # pre) @ xs) sc fc w
            = sequential_loop eng self (x # pre @ xs) sc fc w" by simp
    also have "\<dots> = (case sequential_loop eng self (x # pre) sc fc w of
        (Ok u, self1, w1) \<Rightarrow> sequential_loop eng self1 xs sc fc w1
      | (Raise e, self1, w1) \<Rightarrow> (Raise e, self1, w1)
      | (Exit n, self1, w1) \<Rightarrow> (Exit n, self1, w1))"
      unfolding sequential_loop_Ok [OF Ok]
      using Cons.IH [of _ "sc + 1" fc] Cons.IH [of _ sc "fc + 1"]
            sequential_loop_counters [of eng _ xs "sc + 1" fc _ sc fc]
            sequential_loop_counters [of eng _ xs sc "fc + 1" _ sc fc]
      by (simp split: prod.splits res.splits)
    finally show ?thesis .
  next
    case (Raise e w1)
    have "sequential_loop eng self ((x # pre) @ xs) sc fc w
            = sequential_loop eng self (x # pre @ xs) sc fc w" by simp
    then show ?thesis unfolding sequential_loop_Raise [OF Raise] by simp
  qed
qed

lemma seq_post_Nil: "seq_post self [] (Ok ()) []"
  by (simp add: seq_post_def)

lemma seq_post_Raise: "seq_post self xs (Raise e) []"
  by (simp add: seq_post_def)

lemma seq_post_stop:
  "\<not> r_success res \<Longrightarrow> \<not> continue_on_error self \<Longrightarrow> seq_post self xs (Exit 1) [res]"
  by (simp add: seq_post_def)

lemma seq_post_step:
  assumes "seq_post self1 xs r rs"
    and "continue_on_error self1 = continue_on_error self"
    and "r_folder res = basename x" and "r_error res = None"
    and "r_success res \<or> continue_on_error self"
  shows "seq_post self (x # xs) r (res # rs)"
  using assms by (auto simp: seq_post_def)

lemma sequential_loop_state:
  "sequential_loop eng self xs sc fc w = (r, self', w') \<Longrightarrow>
     \<exists>rs. self' = self\<lparr>results := results self @ rs\<rparr> \<and> seq_post self xs r rs"
proof (induction xs arbitrary: self sc fc w)
  case Nil
  then have "self' = self\<lparr>results := results self @ []\<rparr>" "r = Ok ()" by simp_all
  then show ?case using seq_post_Nil by blast
next
  case (Cons x xs)
  show ?case
  proof (cases rule: process_folder_outcome [of eng self x w])
    case (Raise e w1)
    from Cons.prems have "self' = self\<lparr>results := results self @ []\<rparr>" "r = Raise e"
      unfolding sequential_loop_Raise [OF Raise] by simp_all
    then show ?thesis using seq_post_Raise by blast
  next
    case (Ok b name d w1)
    have name: "name = basename x" using Ok by (rule process_folder_name)
    define res where "res = \<lparr>r_folder = name, r_success = b, r_duration = d,
                    r_error = None, r_timestamp = clock w1\<rparr>"
    define self1 where "self1 = self\<lparr>results := results self @ [res]\<rparr>"
    have step: "sequential_loop eng self (x # xs) sc fc w =
       (if b then sequential_loop eng self1 xs (sc + 1) fc w1
        else if \<not> continue_on_error self then (Exit 1, self1, w1)
        else sequential_loop eng self1 xs sc (fc + 1) w1)"
      unfolding sequential_loop_Ok [OF Ok] self1_def res_def by simp
    have coe: "continue_on_error self1 = continue_on_error self"
      by (simp add: self1_def)
    have res: "r_folder res = basename x" "r_error res = None" "r_success res = b"
      by (simp_all add: res_def name)
    show ?thesis
    proof (cases "b \<or> continue_on_error self")
      case True
      then obtain sc1 fc1 where rec: "sequential_loop eng self1 xs sc1 fc1 w1 = (r, self', w')"
        using Cons.prems step by (auto split: if_splits)
      from Cons.IH [OF rec] obtain rs where
        rs: "self' = self1\<lparr>results := results self1 @ rs\<rparr>" "seq_post self1 xs r rs"
        by blast
      have "self' = self\<lparr>results := results self @ (res # rs)\<rparr>"
        using rs(1) by (simp add: self1_def)
      moreover have "seq_post self (x # xs) r (res # rs)"
        using True res(3) by (intro seq_post_step [OF rs(2) coe res(1,2)]) auto
      ultimately show ?thesis by blast
    next
      case False
      then have "r = Exit 1" "self' = self1" using Cons.prems step by auto
      then have "self' = self\<lparr>results := results self @ [res]\<rparr>" by (simp add: self1_def)
      moreover have "seq_post self (x # xs) (Exit 1) [res]"
        using False res(3) by (intro seq_post_stop) auto
      ultimately show ?thesis using \<open>r = Exit 1\<close> by blast
    qed
  qed
qed

section \<open>Facts about the parallel collector\<close>

lemma mset_pick_order: "mset (pick_order ks xs) = mset xs"
proof (induction ks xs rule: pick_order.induct)
  case (1 ks)
  show ?case by simp
next
  case (2 x xs)
  show ?case by simp
next
  case (3 k ks x xs)
  define i where "i = k mod length (x # xs)"
  have i: "i < length (x # xs)" by (simp add: i_def)
  have split: "x # xs = take i (x # xs) @ (x # xs) ! i # drop (Suc i) (x # xs)"
    using i by (rule id_take_nth_drop)
  have "mset (pick_order (k # ks) (x # xs))
          = {#(x # xs) ! i#} + mset (pick_order ks (take i (x # xs) @ drop (Suc i) (x # xs)))"
    by (simp add: i_def Let_def del: take_Cons' drop_Suc_Cons)
  also have "\<dots> = {#(x # xs) ! i#} + mset (take i (x # xs) @ drop (Suc i) (x # xs))"
    using "3.IH" [of i] by (simp add: i_def)
  also have "\<dots> = mset (take i (x # xs) @ (x # xs) ! i # drop (Suc i) (x # xs))"
    by simp
  also have "\<dots> = mset (x # xs)" using split by simp
  finally show ?case .
qed

lemma length_pick_order: "length (pick_order ks xs) = length xs"
  using mset_pick_order [of ks xs] by (metis size_mset)

lemma collect_loop_Ok:
  "process_folder eng self x w = (Ok (b, name, d), w1) \<Longrightarrow>
   collect_loop eng self (x # xs) w =
     collect_loop eng
       (self\<lparr>results := results self @
          [\<lparr>r_folder = name, r_success = b, r_duration = d, r_error = None,
            r_timestamp = clock w1\<rparr>]\<rparr>) xs w1"
  by simp

lemma collect_loop_Raise:
  "process_folder eng self x w = (Raise e, w1) \<Longrightarrow>
   collect_loop eng self (x # xs) w =
     collect_loop eng
       (self\<lparr>results := results self @
          [\<lparr>r_folder = x, r_success = False, r_duration = 0, r_error = Some e,
            r_timestamp = clock w1\<rparr>]\<rparr>) xs w1"
  by simp

lemma collect_loop_state:
  "collect_loop eng self xs w = (r, self', w') \<Longrightarrow>
     r = Ok () \<and>
     (\<exists>rs. self' = self\<lparr>results := results self @ rs\<rparr>
         \<and> list_all2 (\<lambda>res f. r_folder res = basename f \<or> r_folder res = f) rs xs)"
proof (induction xs arbitrary: self w)
  case Nil
  then have "self' = self\<lparr>results := results self @ []\<rparr>" "r = Ok ()" by simp_all
  moreover have "list_all2 (\<lambda>res f. r_folder res = basename f \<or> r_folder res = f) [] []"
    by simp
  ultimately show ?case by blast
next
  case (Cons x xs)
  show ?case
  proof (cases rule: process_folder_outcome [of eng self x w])
    case (Ok b name d w1)
    have name: "name = basename x" using Ok by (rule process_folder_name)
    define res where "res = \<lparr>r_folder = name, r_success = b, r_duration = d,
                    r_error = None, r_timestamp = clock w1\<rparr>"
    define self1 where "self1 = self\<lparr>results := results self @ [res]\<rparr>"
    have rec: "collect_loop eng self1 xs w1 = (r, self', w')"
      using Cons.prems unfolding collect_loop_Ok [OF Ok] self1_def res_def by simp
    from Cons.IH [OF rec] obtain rs where
      rs: "r = Ok ()" "self' = self1\<lparr>results := results self1 @ rs\<rparr>"
          "list_all2 (\<lambda>res f. r_folder res = basename f \<or> r_folder res = f) rs xs"
      by blast
    have "self' = self\<lparr>results := results self @ (res # rs)\<rparr>"
      using rs(2) by (simp add: self1_def)
    moreover have "list_all2 (\<lambda>res f. r_folder res = basename f \<or> r_folder res = f)
                     (res # rs) (x # xs)"
      using rs(3) by (simp add: res_def name)
    ultimately show ?thesis using rs(1) by blast
  next
    case (Raise e w1)
    define res where "res = \<lparr>r_folder = x, r_success = False, r_duration = 0,
                    r_error = Some e, r_timestamp = clock w1\<rparr>"
    define self1 where "self1 = self\<lparr>results := results self @ [res]\<rparr>"
    have rec: "collect_loop eng self1 xs w1 = (r, self', w')"
      using Cons.prems unfolding collect_loop_Raise [OF Raise] self1_def res_def by simp
    from Cons.IH [OF rec] obtain rs where
      rs: "r = Ok ()" "self' = self1\<lparr>results := results self1 @ rs\<rparr>"
          "list_all2 (\<lambda>res f. r_folder res = basename f \<or> r_folder res = f) rs xs"
      by blast
    have "self' = self\<lparr>results := results self @ (res # rs)\<rparr>"
      using rs(2) by (simp add: self1_def)
    moreover have "list_all2 (\<lambda>res f. r_folder res = basename f \<or> r_folder res = f)
                     (res # rs) (x # xs)"
      using rs(3) by (simp add: res_def)
    ultimately show ?thesis using rs(1) by blast
  qed
qed

lemma no_workers: "(min (length xs) (4::nat) = 0) = (xs = [])"
  by (cases xs) auto

section \<open>The example runs, evaluated\<close>

lemmas example_eval = process_folder_def stage_folder_def run_engine_def subprocess_run_def
  engine_cmd_def Let_def example_runner_def example_world_def example_tree_def
  example_engine_ok_def example_engine_a_fails_def basename_def pjoin_def parts_def
  is_abs_def Path_def endswith_def exists_def copytree_def str_of_path_def

lemma process_example_a_fails:
  "process_folder example_engine_a_fails example_runner ''a_original'' example_world =
     (Ok (False, ''a_original'', 2),
      \<lparr>fs = example_tree_staged, clock = 2,
       events = [Invoked [''python3'', ''engine.py'', ''results/a_original/a'']], console = []\<rparr>)"
  by (simp add: example_eval example_tree_staged_def)

lemma folders_example: "folders example_runner = [''a_original'', ''b'']"
  by (simp add: example_runner_def)

lemma sequential_example_a_fails:
  "process_folders_sequential example_engine_a_fails example_runner example_world =
     (Exit 1,
      example_runner\<lparr>results :=
        [\<lparr>r_folder = ''a_original'', r_success = False, r_duration = 2, r_error = None,
          r_timestamp = 2\<rparr>]\<rparr>,
      \<lparr>fs = example_tree_staged, clock = 2,
       events = [Invoked [''python3'', ''engine.py'', ''results/a_original/a'']], console = []\<rparr>)"
proof -
  have "process_folders_sequential example_engine_a_fails example_runner example_world
      = sequential_loop example_engine_a_fails example_runner [''a_original'', ''b''] 0 0
          example_world"
    by (simp only: process_folders_sequential_def folders_example)
  also have "\<dots> = (Exit 1,
      example_runner\<lparr>results :=
        [\<lparr>r_folder = ''a_original'', r_success = False, r_duration = 2, r_error = None,
          r_timestamp = 2\<rparr>]\<rparr>,
      \<lparr>fs = example_tree_staged, clock = 2,
       events = [Invoked [''python3'', ''engine.py'', ''results/a_original/a'']], console = []\<rparr>)"
    unfolding sequential_loop_Ok [OF process_example_a_fails]
    by (simp add: example_runner_def)
  finally show ?thesis .
qed

lemma sequential_example_ok:
  "\<exists>self' w'. process_folders_sequential example_engine_ok example_runner example_world
      = (Ok (), self', w')"
  by (simp add: process_folders_sequential_def example_eval example_tree_staged_def)

lemma pick_example: "pick_order [1] [''a_original'', ''b''] = [''b'', ''a_original'']"
  by simp

lemma parallel_example:
  "\<exists>self' w'. process_folders_parallel example_engine_a_fails [1]
       (example_runner\<lparr>parallel := True\<rparr>) example_world = (Ok (), self', w')"
  by (simp add: process_folders_parallel_def example_eval)

section \<open>Facts about discovery\<close>

lemma is_file_notes: "is_file example_tree (Path ''notes.txt'')"
  by (simp add: is_file_def Path_def parts_def example_tree_def)

lemma valid_example_a: "is_valid_test_data_folder example_tree (False, [''a_original''])"
  by (simp add: is_valid_test_data_folder_def indicators_def pjoin_subject pjoin_osim
      pjoin_trials exists_def example_tree_def)

lemma valid_example_b: "is_valid_test_data_folder example_tree (False, [''b''])"
  by (simp add: is_valid_test_data_folder_def indicators_def pjoin_subject pjoin_osim
      pjoin_trials exists_def example_tree_def)

lemma resolve_example:
  "resolve_paths example_tree [''a_original'', ''b''] [] [] = Inr ([''a_original'', ''b''], [])"
  using valid_example_a valid_example_b
  by (simp add: Path_a_original Path_b is_file_def is_dir_def example_tree_def)

section \<open>Facts about the trace and the report\<close>

lemma persisted_append: "persisted (es @ es') = persisted es @ persisted es'"
  by (induction es rule: persisted.induct) simp_all

lemma stage_folder_events: "stage_folder self fp name op w = (r, w') \<Longrightarrow> events w' = events w"
  by (auto simp: stage_folder_def Let_def split: sum.splits if_splits)

lemma run_engine_persisted:
  "run_engine eng self name wd w = (r, w') \<Longrightarrow> persisted (events w') = persisted (events w)"
  by (auto simp: run_engine_def subprocess_run_def Let_def persisted_append
      split: prod.splits proc.splits if_splits)

lemma process_folder_persisted:
  assumes "process_folder eng self fp w = (r, w')"
  shows "persisted (events w') = persisted (events w)"
proof (cases rule: process_folder_cases [of w self fp eng])
  case (mkdir_fault e)
  with assms show ?thesis by simp
next
  case (stage_fault t1 e w2)
  with assms have "w' = w2" by simp
  with stage_folder_events [OF stage_fault(2)] show ?thesis by simp
next
  case (engine t1 wd w2)
  with assms have "run_engine eng self (basename fp) wd w2 = (r, w')" by simp
  from run_engine_persisted [OF this] stage_folder_events [OF engine(2)]
  show ?thesis by simp
qed

lemma sequential_loop_persisted:
  "sequential_loop eng self xs sc fc w = (r, self', w') \<Longrightarrow>
     persisted (events w') = persisted (events w)"
proof (induction xs arbitrary: self sc fc w)
  case Nil
  then show ?case by simp
next
  case (Cons x xs)
  show ?case
  proof (cases rule: process_folder_outcome [of eng self x w])
    case (Raise e w1)
    from Cons.prems have "w' = w1" unfolding sequential_loop_Raise [OF Raise] by simp
    with process_folder_persisted [OF Raise] show ?thesis by simp
  next
    case (Ok b name d w1)
    note p = process_folder_persisted [OF Ok]
    show ?thesis
    proof (cases "b \<or> continue_on_error self")
      case True
      then obtain self1 sc1 fc1 where "sequential_loop eng self1 xs sc1 fc1 w1 = (r, self', w')"
        using Cons.prems unfolding sequential_loop_Ok [OF Ok] by (auto split: if_splits)
      from Cons.IH [OF this] p show ?thesis by simp
    next
      case False
      then have "w' = w1" using Cons.prems unfolding sequential_loop_Ok [OF Ok] by auto
      with p show ?thesis by simp
    qed
  qed
qed

lemma collect_loop_persisted:
  "collect_loop eng self xs w = (r, self', w') \<Longrightarrow>
     persisted (events w') = persisted (events w)"
proof (induction xs arbitrary: self w)
  case Nil
  then show ?case by simp
next
  case (Cons x xs)
  show ?case
  proof (cases rule: process_folder_outcome [of eng self x w])
    case (Raise e w1)
    from Cons.prems obtain self1 where "collect_loop eng self1 xs w1 = (r, self', w')"
      unfolding collect_loop_Raise [OF Raise] by blast
    from Cons.IH [OF this] process_folder_persisted [OF Raise] show ?thesis by simp
  next
    case (Ok b name d w1)
    from Cons.prems obtain self1 where "collect_loop eng self1 xs w1 = (r, self', w')"
      unfolding collect_loop_Ok [OF Ok] by blast
    from Cons.IH [OF this] process_folder_persisted [OF Ok] show ?thesis by simp
  qed
qed

lemma parallel_post:
  assumes "process_folders_parallel eng sched self w = (r, self', w')"
  shows "persisted (events w') = persisted (events w)
       \<and> (\<exists>rs. self' = self\<lparr>results := results self @ rs\<rparr> \<and> length rs = length (folders self))
       \<and> (\<forall>n. r \<noteq> Exit n)"
proof (cases "folders self = []")
  case True
  with assms have "self' = self\<lparr>results := results self @ []\<rparr>" "w' = w" "r = Raise ValueError"
    by (simp_all add: process_folders_parallel_def no_workers)
  with True show ?thesis by fastforce
next
  case False
  with assms have c: "collect_loop eng self (pick_order sched (folders self)) w = (r, self', w')"
    by (simp add: process_folders_parallel_def no_workers)
  from collect_loop_state [OF c] obtain rs where
    "r = Ok ()" "self' = self\<lparr>results := results self @ rs\<rparr>"
    "length rs = length (pick_order sched (folders self))"
    by (auto dest: list_all2_lengthD)
  with collect_loop_persisted [OF c] show ?thesis
    by (auto simp: length_pick_order)
qed

lemma sequential_post:
  assumes "process_folders_sequential eng self w = (r, self', w')"
  shows "persisted (events w') = persisted (events w)
       \<and> (\<exists>rs. self' = self\<lparr>results := results self @ rs\<rparr> \<and> seq_post self (folders self) r rs)"
  using assms sequential_loop_persisted sequential_loop_state
  unfolding process_folders_sequential_def by blast

lemma seq_post_length: "seq_post self xs (Ok ()) rs \<Longrightarrow> length rs = length xs"
  by (auto simp: seq_post_def dest: list_all2_lengthD)

lemma lookup_write_file: "write_file t p c = Inr t' \<Longrightarrow> lookup t' p = Some (File c)"
proof (induction t p c arbitrary: t' rule: write_file.induct)
  case (3 es s c)
  then show ?case by (auto simp: update_conv' split: option.splits node.splits)
next
  case (4 es s u us c)
  then show ?case by (auto simp: update_conv' split: option.splits sum.splits)
qed simp_all

lemma save_results_cases:
  assumes "save_results self w = (r, w')"
  shows "(r = Ok ()
          \<and> lookup (fs w') (snd (pjoin (output_dir self) ''processing_results.json''))
               = Some (File (Report (make_summary self w)))
          \<and> events w' = events w @
               [Persisted (pjoin (output_dir self) ''processing_results.json'')
                  (make_summary self w)]
          \<and> (\<exists>t'. write_file (fs w) (snd (pjoin (output_dir self) ''processing_results.json''))
                 (Report (make_summary self w)) = Inr t'))
       \<or> (\<exists>e. r = Raise e \<and> w' = w
          \<and> write_file (fs w) (snd (pjoin (output_dir self) ''processing_results.json''))
                 (Report (make_summary self w)) = Inl e)"
  using assms
  by (auto simp: save_results_def Let_def lookup_write_file split: sum.splits)

lemma make_summary_counts:
  "successful (make_summary self w) + failed (make_summary self w) = length (results self)"
  "total_folders (make_summary self w) = length (folders self)"
  "rep_results (make_summary self w) = results self"
  by (simp_all add: make_summary_def sum_length_filter_compl)

section \<open>Facts about a whole run\<close>

lemma processing_post:
  assumes "(if parallel self then process_folders_parallel eng sched self w
            else process_folders_sequential eng self w) = (r, self1, w1)"
  shows "persisted (events w1) = persisted (events w)
       \<and> (\<exists>rs. self1 = self\<lparr>results := results self @ rs\<rparr>
            \<and> (\<forall>u. r = Ok u \<longrightarrow> length rs = length (folders self))
            \<and> (\<not> parallel self \<longrightarrow> seq_post self (folders self) r rs))
       \<and> (\<forall>n. r = Exit n \<longrightarrow> \<not> parallel self)"
proof (cases "parallel self")
  case True
  with assms have "process_folders_parallel eng sched self w = (r, self1, w1)" by simp
  from parallel_post [OF this] True show ?thesis by auto
next
  case False
  with assms have "process_folders_sequential eng self w = (r, self1, w1)" by simp
  from sequential_post [OF this] obtain rs where
    rs: "persisted (events w1) = persisted (events w)"
        "self1 = self\<lparr>results := results self @ rs\<rparr>" "seq_post self (folders self) r rs"
    by blast
  have "\<forall>u. r = Ok u \<longrightarrow> length rs = length (folders self)"
    using rs(3) seq_post_length by auto
  with rs False show ?thesis by blast
qed

lemma run_unfold:
  assumes "validate_folders self w"
    and "(if parallel self then process_folders_parallel eng sched self w
            else process_folders_sequential eng self w) = (r1, self1, w1)"
  shows "run eng sched self w =
     (case r1 of
        Ok u \<Rightarrow> (fst (save_results self1 w1), self1, snd (save_results self1 w1))
      | Raise e \<Rightarrow> (Raise e, self1, w1)
      | Exit n \<Rightarrow> (Exit n, self1, w1))"
proof -
  obtain r2 w2 where s: "save_results self1 w1 = (r2, w2)"
    by (cases "save_results self1 w1") auto
  from save_results_cases [OF s] have "r2 = Ok () \<or> (\<exists>e. r2 = Raise e)" by auto
  then show ?thesis
    using assms s by (cases r1) (auto simp: run_def)
qed

lemma run_invalid: "\<not> validate_folders self w \<Longrightarrow> run eng sched self w = (Exit 1, self, w)"
  by (simp add: run_def)

lemma run_Ok:
  assumes "run eng sched self w = (Ok u, self', w')"
  shows "\<exists>rs w1. validate_folders self w
           \<and> self' = self\<lparr>results := results self @ rs\<rparr>
           \<and> length rs = length (folders self)
           \<and> (\<not> parallel self \<longrightarrow> seq_post self (folders self) (Ok ()) rs)
           \<and> persisted (events w1) = persisted (events w)
           \<and> save_results self' w1 = (Ok (), w')"
proof -
  have v: "validate_folders self w" using assms run_invalid by fastforce
  obtain r1 self1 w1 where p: "(if parallel self then process_folders_parallel eng sched self w
            else process_folders_sequential eng self w) = (r1, self1, w1)"
    by (metis prod_cases3)
  note u = run_unfold [OF v p]
  from assms u have r1: "r1 = Ok ()" by (cases r1) auto
  with assms u have s: "save_results self1 w1 = (Ok (), w')" "self' = self1"
    by (auto simp: prod_eq_iff)
  from processing_post [OF p] r1 obtain rs where
    "persisted (events w1) = persisted (events w)"
    "self1 = self\<lparr>results := results self @ rs\<rparr>" "length rs = length (folders self)"
    "\<not> parallel self \<longrightarrow> seq_post self (folders self) (Ok ()) rs"
    by auto
  with v s show ?thesis by blast
qed

lemma run_Exit:
  assumes "run eng sched self w = (Exit n, self', w')"
  shows "n = 1 \<and> persisted (events w') = persisted (events w)
       \<and> ((\<not> validate_folders self w \<and> self' = self)
          \<or> (validate_folders self w \<and> \<not> parallel self
              \<and> (\<exists>rs. self' = self\<lparr>results := results self @ rs\<rparr>
                    \<and> seq_post self (folders self) (Exit 1) rs)))"
proof (cases "validate_folders self w")
  case False
  with assms show ?thesis by (simp add: run_invalid)
next
  case True
  obtain r1 self1 w1 where p: "(if parallel self then process_folders_parallel eng sched self w
            else process_folders_sequential eng self w) = (r1, self1, w1)"
    by (metis prod_cases3)
  note u = run_unfold [OF True p]
  obtain r2 w2 where s: "save_results self1 w1 = (r2, w2)"
    by (cases "save_results self1 w1") auto
  from save_results_cases [OF s] have "r2 = Ok () \<or> (\<exists>e. r2 = Raise e)" by auto
  with assms u s have r1: "r1 = Exit n" "self' = self1" "w' = w1"
    by (cases r1; auto)+
  from processing_post [OF p] r1 obtain rs where
    rs: "persisted (events w1) = persisted (events w)"
    "self1 = self\<lparr>results := results self @ rs\<rparr>" "\<not> parallel self"
    "seq_post self (folders self) (Exit n) rs"
    by auto
  from rs(4) have "n = 1" by (simp add: seq_post_def)
  with rs r1 True show ?thesis by blast
qed

lemma run_Raise:
  assumes "run eng sched self w = (Raise e, self', w')"
  shows "persisted (events w') = persisted (events w)"
proof -
  have v: "validate_folders self w" using assms run_invalid by fastforce
  obtain r1 self1 w1 where p: "(if parallel self then process_folders_parallel eng sched self w
            else process_folders_sequential eng self w) = (r1, self1, w1)"
    by (metis prod_cases3)
  note u = run_unfold [OF v p]
  from processing_post [OF p] have pe: "persisted (events w1) = persisted (events w)" by blast
  obtain r2 w2 where s: "save_results self1 w1 = (r2, w2)"
    by (cases "save_results self1 w1") auto
  show ?thesis
  proof (cases r1)
    case (Ok x)
    with assms u s have "r2 = Raise e" "w' = w2" by auto
    with save_results_cases [OF s] have "w' = w1" by auto
    with pe show ?thesis by simp
  next
    case (Raise x)
    with assms u have "w' = w1" by auto
    with pe show ?thesis by simp
  next
    case (Exit x)
    with assms u show ?thesis by auto
  qed
qed

lemma init_cases:
  assumes "init a all_folders w = (r, w1)"
  shows "(\<exists>e. r = Raise e \<and> w1 = w
            \<and> mkdir_p (fs w) (snd (Path (arg_output_dir a))) = Inl e)
       \<or> (\<exists>self. r = Ok self \<and> results self = [] \<and> folders self = all_folders
            \<and> parallel self = arg_parallel a
            \<and> continue_on_error self = arg_continue_on_error a
            \<and> output_dir self = Path (arg_output_dir a)
            \<and> events w1 = events w
            \<and> mkdir_p (fs w) (snd (Path (arg_output_dir a))) = Inr (fs w1))"
  using assms by (auto simp: init_def Let_def split: sum.splits)

lemma main_cases:
  assumes "main eng sched a w = (r, so, w')"
  obtains (discovery_fault) e where
      "resolve_paths (fs w) (paths a) [] (console w) = Inl e"
      "r = Raise e" "so = None" "w' = w"
  | (no_units) out where
      "resolve_paths (fs w) (paths a) [] (console w) = Inr ([], out)"
      "r = Exit 1" "so = None" "events w' = events w"
  | (init_fault) all_folders out e where
      "resolve_paths (fs w) (paths a) [] (console w) = Inr (all_folders, out)"
      "all_folders \<noteq> []" "r = Raise e" "so = None" "events w' = events w"
  | (ran) all_folders out self w1 self' where
      "resolve_paths (fs w) (paths a) [] (console w) = Inr (all_folders, out)"
      "all_folders \<noteq> []"
      "init a all_folders (w\<lparr>console := out\<rparr>) = (Ok self, w1)"
      "run eng sched self w1 = (r, self', w')" "so = Some self'"
proof (cases "resolve_paths (fs w) (paths a) [] (console w)")
  case (Inl e)
  with assms show ?thesis by (intro discovery_fault [of e]) (simp_all add: main_def)
next
  case (Inr p)
  obtain all_folders out where p: "p = (all_folders, out)" by (cases p) auto
  show ?thesis
  proof (cases "all_folders = []")
    case True
    with assms Inr p show ?thesis
      by (intro no_units [of out]) (auto simp: main_def)
  next
    case False
    obtain ri w1 where i: "init a all_folders (w\<lparr>console := out\<rparr>) = (ri, w1)"
      by (cases "init a all_folders (w\<lparr>console := out\<rparr>)") auto
    from init_cases [OF i] show ?thesis
    proof (elim disjE exE conjE)
      fix e
      assume "ri = Raise e" "w1 = w\<lparr>console := out\<rparr>"
      with assms Inr p False i show ?thesis
        by (intro init_fault [of all_folders out e]) (auto simp: main_def)
    next
      fix self
      assume ok: "ri = Ok self"
      obtain r' self' w2 where rn: "run eng sched self w1 = (r', self', w2)"
        by (metis prod_cases3)
      with assms Inr p False i ok show ?thesis
        by (intro ran [of all_folders out self w1 self']) (auto simp: main_def)
    qed
  qed
qed

lemmas example_run_eval = run_def validate_folders_def process_folders_sequential_def
  save_results_def make_summary_def example_eval

lemma run_example_continue:
  "\<exists>self' w'. run example_engine_a_fails [] (example_runner\<lparr>continue_on_error := True\<rparr>)
      example_world = (Ok (), self', w')"
  by (simp add: example_run_eval is_dir_def)

lemma run_example_fail_fast:
  "\<exists>self' w'. run example_engine_a_fails [] example_runner example_world = (Exit 1, self', w')"
  by (simp add: example_run_eval is_dir_def)

lemma main_example:
  "\<exists>so w' rep. main example_engine_ok [] example_args example_world = (Ok (), so, w')
      \<and> persisted (events w') = [rep]"
  using is_file_notes valid_example_a valid_example_b
  by (simp add: main_def example_args_def init_def Path_a_original Path_b is_file_def is_dir_def
      example_run_eval)

section \<open>Discovered folders pass validation\<close>

lemma split_sep_no_slash: "s \<in> set (split_sep x) \<Longrightarrow> CHR ''/'' \<notin> set s"
proof (induction x arbitrary: s)
  case Nil
  then show ?case by simp
next
  case (Cons c cs)
  show ?case
  proof (cases "c = CHR ''/''")
    case True
    with Cons show ?thesis by auto
  next
    case False
    show ?thesis
    proof (cases "split_sep cs")
      case Nil
      with Cons.prems False show ?thesis by simp
    next
      case (Cons v vs)
      with Cons.prems False have "s = c # v \<or> s \<in> set vs" by simp
      moreover have "CHR ''/'' \<notin> set v" "\<And>u. u \<in> set vs \<Longrightarrow> CHR ''/'' \<notin> set u"
        using Cons.IH Cons by simp_all
      ultimately show ?thesis using False by auto
    qed
  qed
qed

lemma split_sep_plain: "CHR ''/'' \<notin> set s \<Longrightarrow> split_sep s = [s]"
  by (induction s) auto

lemma split_sep_app:
  "CHR ''/'' \<notin> set s \<Longrightarrow> split_sep (s @ CHR ''/'' # rest) = s # split_sep rest"
  by (induction s) auto

lemma split_sep_join:
  "ss \<noteq> [] \<Longrightarrow> \<forall>s\<in>set ss. CHR ''/'' \<notin> set s \<Longrightarrow> split_sep (join_sep ss) = ss"
proof (induction ss rule: join_sep.induct)
  case 1
  then show ?case by simp
next
  case (2 s)
  then show ?case by (simp add: split_sep_plain)
next
  case (3 s t ts)
  then have "split_sep (join_sep (t # ts)) = t # ts" by simp
  moreover have "CHR ''/'' \<notin> set s" using 3 by simp
  ultimately show ?case using split_sep_app [of s "join_sep (t # ts)"] by simp
qed

lemma clean_parts: "clean (parts x)"
  by (auto simp: clean_def parts_def dest: split_sep_no_slash)

lemma clean_append: "clean (xs @ ys) = (clean xs \<and> clean ys)"
  by (auto simp: clean_def)

lemma filter_clean:
  "clean ss \<Longrightarrow> filter (\<lambda>w. w \<noteq> [] \<and> w \<noteq> ''.'') ss = ss"
  by (induction ss) (auto simp: clean_def)

lemma parts_str_of_path:
  assumes "clean ss"
  shows "parts (str_of_path (a, ss)) = ss"
proof (cases "ss = []")
  case True
  then show ?thesis by (simp add: str_of_path_def parts_def)
next
  case False
  have ns: "\<forall>s\<in>set ss. CHR ''/'' \<notin> set s" using assms by (simp add: clean_def)
  have j: "split_sep (join_sep ss) = ss" using split_sep_join [OF False ns] .
  show ?thesis
    using False j filter_clean [OF assms]
    by (simp add: str_of_path_def parts_def)
qed

lemma clean_pjoin: "clean (snd (pjoin (Path d) name))"
  by (simp add: pjoin_def Path_def clean_parts clean_append)

lemma is_dir_reparsed: "is_dir t (Path (str_of_path (pjoin (Path d) name))) = is_dir t (pjoin (Path d) name)"
proof -
  have "snd (Path (str_of_path (pjoin (Path d) name))) = snd (pjoin (Path d) name)"
    using parts_str_of_path [OF clean_pjoin, of "fst (pjoin (Path d) name)" d name]
    by (simp add: Path_def)
  then show ?thesis by (simp add: is_dir_def)
qed

lemma find_test_data_folders_dirs:
  assumes "find_test_data_folders t d = Inr found"
  shows "\<forall>f\<in>set found. is_dir t (Path f)"
proof (cases "exists t (Path d)")
  case False
  with assms show ?thesis by (simp add: find_test_data_folders_def Let_def)
next
  case True
  with assms obtain es where
    "found = map str_of_path
       (filter (\<lambda>item. is_dir t item \<and> is_valid_test_data_folder t item)
          (map (pjoin (Path d)) (iterdir es)))"
    by (auto simp: find_test_data_folders_def Let_def split: option.splits node.splits)
  then show ?thesis by (auto simp: is_dir_reparsed)
qed

lemma resolve_paths_dirs:
  "resolve_paths t ps acc out = Inr (found, out') \<Longrightarrow>
   \<forall>f\<in>set acc. is_dir t (Path f) \<Longrightarrow> \<forall>f\<in>set found. is_dir t (Path f)"
proof (induction ps arbitrary: acc out)
  case Nil
  then show ?case by simp
next
  case (Cons p ps)
  show ?case
  proof (cases "is_file t (Path p)")
    case True
    with Cons.prems have "resolve_paths t ps acc out = Inr (found, out')" by simp
    from Cons.IH [OF this Cons.prems(2)] show ?thesis .
  next
    case nf: False
    show ?thesis
    proof (cases "is_dir t (Path p)")
      case False
      with nf Cons.prems obtain out1 where "resolve_paths t ps acc out1 = Inr (found, out')"
        by auto
      from Cons.IH [OF this Cons.prems(2)] show ?thesis .
    next
      case d: True
      show ?thesis
      proof (cases "is_valid_test_data_folder t (Path p)")
        case True
        with nf d Cons.prems have "resolve_paths t ps (acc @ [p]) out = Inr (found, out')"
          by simp
        moreover have "\<forall>f\<in>set (acc @ [p]). is_dir t (Path f)"
          using d Cons.prems(2) by auto
        ultimately show ?thesis by (rule Cons.IH)
      next
        case False
        show ?thesis
        proof (cases "find_test_data_folders t p")
          case (Inl e)
          with nf d False Cons.prems show ?thesis by simp
        next
          case (Inr ff)
          with nf d False Cons.prems obtain acc1 out1 where
            r: "resolve_paths t ps acc1 out1 = Inr (found, out')"
            and a: "acc1 = acc \<or> acc1 = acc @ ff"
            by (auto split: if_splits)
          have "\<forall>f\<in>set acc1. is_dir t (Path f)"
            using a Cons.prems(2) find_test_data_folders_dirs [OF Inr] by auto
          with r show ?thesis by (rule Cons.IH)
        qed
      qed
    qed
  qed
qed

lemma mkdir_p_keeps_dirs:
  "mkdir_p t p = Inr t' \<Longrightarrow> lookup t q = Some (Dir es) \<Longrightarrow> \<exists>es'. lookup t' q = Some (Dir es')"
proof (induction t p arbitrary: t' q es rule: mkdir_p.induct)
  case (1 ds)
  then show ?case by simp
next
  case (2 c)
  then show ?case by simp
next
  case (3 c s ss)
  then show ?case by simp
next
  case (4 ds s ss)
  let ?ch = "case map_of ds s of None \<Rightarrow> Dir [] | Some ch \<Rightarrow> ch"
  from "4.prems"(1) obtain ch' where
    ch': "mkdir_p ?ch ss = Inr ch'" "t' = Dir (AList.update s ch' ds)"
    by (auto split: sum.splits)
  show ?case
  proof (cases q)
    case Nil
    with ch' show ?thesis by simp
  next
    case (Cons x xs)
    show ?thesis
    proof (cases "x = s")
      case False
      with Cons "4.prems"(2) ch' show ?thesis by (simp add: update_conv')
    next
      case True
      with Cons "4.prems"(2) obtain ch where
        c: "map_of ds s = Some ch" "lookup ch xs = Some (Dir es)"
        by (auto split: option.splits)
      then have "?ch = ch" by simp
      with "4.IH" [of ch' xs es] ch'(1) c(2) obtain es' where "lookup ch' xs = Some (Dir es')"
        by auto
      with True Cons ch'(2) show ?thesis by (simp add: update_conv')
    qed
  qed
qed

lemma validate_folders_loop_dirs:
  "\<forall>f\<in>set found. is_dir t (Path f) \<Longrightarrow> validate_folders_loop t found"
  by (induction found) (auto simp: is_dir_def exists_def split: option.splits)

lemma is_dir_after_mkdir:
  "mkdir_p t p = Inr t' \<Longrightarrow> is_dir t x \<Longrightarrow> is_dir t' x"
  using mkdir_p_keeps_dirs [of t p t' "snd x"]
  by (auto simp: is_dir_def split: option.splits node.splits)

lemma validated_after_init:
  assumes "resolve_paths (fs w) (paths a) [] (console w) = Inr (all_folders, out)"
    and "init a all_folders (w\<lparr>console := out\<rparr>) = (Ok self, w1)"
  shows "validate_folders self w1"
proof -
  from resolve_paths_dirs [OF assms(1)] have d: "\<forall>f\<in>set all_folders. is_dir (fs w) (Path f)"
    by simp
  from init_cases [OF assms(2)] have
    i: "folders self = all_folders"
       "mkdir_p (fs w) (snd (Path (arg_output_dir a))) = Inr (fs w1)" by auto
  from d is_dir_after_mkdir [OF i(2)] have "\<forall>f\<in>set all_folders. is_dir (fs w1) (Path f)"
    by blast
  then show ?thesis
    unfolding validate_folders_def i(1) by (rule validate_folders_loop_dirs)
qed

lemma main_example_fail_fast:
  "\<exists>so w'. main example_engine_a_fails [] example_args example_world = (Exit 1, so, w')"
  using is_file_notes valid_example_a valid_example_b
  by (simp add: main_def example_args_def init_def Path_a_original Path_b is_file_def is_dir_def
      example_run_eval)

lemma resolve_example_args:
  "resolve_paths (fs example_world) (paths example_args) [] (console example_world)
     = Inr ([''a_original'', ''b''], [])"
  using is_file_notes resolve_example
  by (simp add: example_args_def example_world_def)

lemma main_example_parallel:
  "\<exists>self' w'. main example_engine_a_fails [1] (example_args\<lparr>arg_parallel := True\<rparr>)
       example_world = (Ok (), Some self', w')
     \<and> \<not> r_success (last (results self'))"
  using is_file_notes valid_example_a valid_example_b
  by (simp add: main_def example_args_def init_def Path_a_original Path_b is_file_def is_dir_def
      process_folders_parallel_def example_run_eval)

section \<open>Verified properties\<close>



text \<open>
  C2. With the dry-run flag set, \<^verbatim>\<open>process_folder\<close> invokes no external command, copies
  and removes nothing, and leaves clock, trace and console as they were. It does create
  the output directory of the unit (with missing parents): that is the only change to
  the filesystem. When this directory can be created the call returns success with
  duration exactly zero; when a regular file is in the way, the fault of the creation
  propagates. The claim that nothing in the filesystem changes fails on the example: the
  directory \<^verbatim>\<open>results/a_original\<close> appears.
\<close>

theorem process_folder_dry_run:
  assumes "dry_run self"
  shows "process_folder eng self folder_path w =
     (case mkdir_p (fs w) (snd (pjoin (output_dir self) (basename folder_path))) of
        Inl e \<Rightarrow> (Raise e, w)
      | Inr t1 \<Rightarrow> (Ok (True, basename folder_path, 0), w\<lparr>fs := t1\<rparr>))"
  using assms
  by (simp add: process_folder_def stage_folder_def run_engine_def Let_def split: sum.splits)

theorem process_folder_dry_run_witness:
  "dry_run (example_runner\<lparr>dry_run := True\<rparr>) \<and>
   process_folder example_engine_ok (example_runner\<lparr>dry_run := True\<rparr>) ''a_original''
     example_world =
     (Ok (True, ''a_original'', 0), example_world\<lparr>fs := example_tree_out\<rparr>)"
  using process_folder_dry_run
          [of "example_runner\<lparr>dry_run := True\<rparr>" example_engine_ok "''a_original''" example_world]
  by (simp add: example_paths example_runner_def example_world_def mkdir_example_a)

theorem process_folder_dry_run_mutates:
  "dry_run (example_runner\<lparr>dry_run := True\<rparr>) \<and>
   fs (snd (process_folder example_engine_ok (example_runner\<lparr>dry_run := True\<rparr>)
              ''a_original'' example_world)) \<noteq> fs example_world"
  by (simp add: process_folder_def stage_folder_def run_engine_def Let_def example_paths
      example_runner_def example_world_def mkdir_example_a example_tree_out_def example_tree_def)







text \<open>
  C5. In sequential mode without continue-on-error, when the units before \<^verbatim>\<open>a\<close> were
  processed and the outcome of \<^verbatim>\<open>a\<close> is a failure, the loop ends at once with
  \<^verbatim>\<open>sys.exit(1)\<close>: the outcome of \<^verbatim>\<open>a\<close> is the last entry of the results, and the
  world is the one \<^verbatim>\<open>a\<close> left, so no later unit was touched. With \<^verbatim>\<open>a\<close> the first of
  two units and a fresh runner, the results hold exactly the one entry for \<^verbatim>\<open>a\<close>.
\<close>

theorem sequential_fail_fast:
  assumes "\<not> continue_on_error self"
    and "folders self = pre @ a # rest"
    and "sequential_loop eng self pre 0 0 w = (Ok (), self1, w1)"
    and "process_folder eng self1 a w1 = (Ok (False, n, d), w2)"
  shows "process_folders_sequential eng self w =
           (Exit 1,
            self1\<lparr>results := results self1 @
              [\<lparr>r_folder = n, r_success = False, r_duration = d, r_error = None,
                r_timestamp = clock w2\<rparr>]\<rparr>,
            w2)"
proof -
  from sequential_loop_state [OF assms(3)] obtain rs where
    "self1 = self\<lparr>results := results self @ rs\<rparr>" by blast
  then have coe: "\<not> continue_on_error self1" using assms(1) by simp
  have "process_folders_sequential eng self w = sequential_loop eng self (pre @ a # rest) 0 0 w"
    by (simp add: process_folders_sequential_def assms(2))
  also have "\<dots> = sequential_loop eng self1 (a # rest) 0 0 w1"
    by (simp add: sequential_loop_append assms(3))
  also have "\<dots> = (Exit 1,
            self1\<lparr>results := results self1 @
              [\<lparr>r_folder = n, r_success = False, r_duration = d, r_error = None,
                r_timestamp = clock w2\<rparr>]\<rparr>,
            w2)"
    unfolding sequential_loop_Ok [OF assms(4)] using coe by simp
  finally show ?thesis .
qed

theorem sequential_fail_fast_witness:
  "\<not> continue_on_error example_runner
   \<and> folders example_runner = [] @ ''a_original'' # [''b'']
   \<and> sequential_loop example_engine_a_fails example_runner [] 0 0 example_world
        = (Ok (), example_runner, example_world)
   \<and> process_folder example_engine_a_fails example_runner ''a_original'' example_world =
       (Ok (False, ''a_original'', 2),
        \<lparr>fs = example_tree_staged, clock = 2,
         events = [Invoked [''python3'', ''engine.py'', ''results/a_original/a'']], console = []\<rparr>)
   \<and> process_folders_sequential example_engine_a_fails example_runner example_world =
       (Exit 1,
        example_runner\<lparr>results :=
          [\<lparr>r_folder = ''a_original'', r_success = False, r_duration = 2, r_error = None,
            r_timestamp = 2\<rparr>]\<rparr>,
        \<lparr>fs = example_tree_staged, clock = 2,
         events = [Invoked [''python3'', ''engine.py'', ''results/a_original/a'']], console = []\<rparr>)"
proof -
  have 1: "\<not> continue_on_error example_runner" by (simp add: example_runner_def)
  have 2: "folders example_runner = [] @ ''a_original'' # [''b'']" by (simp add: example_runner_def)
  have 3: "sequential_loop example_engine_a_fails example_runner [] 0 0 example_world
        = (Ok (), example_runner, example_world)" by simp
  show ?thesis
    using sequential_fail_fast [OF 1 2 3 process_example_a_fails] 1 2 3 process_example_a_fails
    by (simp add: example_runner_def)
qed

text \<open>
  C6. In parallel mode the collector appends exactly one entry per folder, in some order
  of the folders; each entry is named after its folder (by base name, or by the path
  when the worker raised). In sequential mode this holds when the loop returns, with the
  entries in the order of the folders. In both cases the results grow by the number of
  folders. The sequential fail-fast exit leaves fewer entries than folders: one of two
  on the example.
\<close>

theorem one_outcome_per_unit:
  "(process_folders_parallel eng sched self w = (r, self', w') \<longrightarrow>
      (\<exists>order rs. mset order = mset (folders self)
          \<and> results self' = results self @ rs
          \<and> list_all2 (\<lambda>res f. r_folder res = basename f \<or> r_folder res = f) rs order)
      \<and> length (results self') = length (results self) + length (folders self))
   \<and> (process_folders_sequential eng self w = (Ok u, self', w') \<longrightarrow>
      (\<exists>rs. results self' = results self @ rs
          \<and> list_all2 (\<lambda>res f. r_folder res = basename f) rs (folders self))
      \<and> length (results self') = length (results self) + length (folders self))"
proof (intro conjI impI)
  assume par: "process_folders_parallel eng sched self w = (r, self', w')"
  show ex: "\<exists>order rs. mset order = mset (folders self)
          \<and> results self' = results self @ rs
          \<and> list_all2 (\<lambda>res f. r_folder res = basename f \<or> r_folder res = f) rs order"
  proof (cases "folders self = []")
    case True
    with par have "self' = self" by (simp add: process_folders_parallel_def no_workers)
    with True show ?thesis by (intro exI [of _ "[]"]) simp
  next
    case False
    with par have "collect_loop eng self (pick_order sched (folders self)) w = (r, self', w')"
      by (simp add: process_folders_parallel_def no_workers)
    from collect_loop_state [OF this] obtain rs where
      "self' = self\<lparr>results := results self @ rs\<rparr>"
      "list_all2 (\<lambda>res f. r_folder res = basename f \<or> r_folder res = f) rs
         (pick_order sched (folders self))" by blast
    then show ?thesis using mset_pick_order [of sched "folders self"]
      by (intro exI [of _ "pick_order sched (folders self)"] exI [of _ rs]) simp
  qed
  then obtain order rs where o: "mset order = mset (folders self)"
     "results self' = results self @ rs" "length rs = length order"
    by (auto dest: list_all2_lengthD)
  from o(1) have "length order = length (folders self)" by (metis size_mset)
  with o show "length (results self') = length (results self) + length (folders self)"
    by simp
next
  assume seq: "process_folders_sequential eng self w = (Ok u, self', w')"
  then have "sequential_loop eng self (folders self) 0 0 w = (Ok (), self', w')"
    by (simp add: process_folders_sequential_def)
  from sequential_loop_state [OF this] obtain rs where
    rs: "self' = self\<lparr>results := results self @ rs\<rparr>" "seq_post self (folders self) (Ok ()) rs"
    by blast
  then have "list_all2 (\<lambda>res f. r_folder res = basename f \<and> r_error res = None) rs
               (folders self)"
    by (simp add: seq_post_def)
  then have l: "list_all2 (\<lambda>res f. r_folder res = basename f) rs (folders self)"
    by (rule list_all2_mono) simp
  with rs(1) show ex: "\<exists>rs. results self' = results self @ rs
          \<and> list_all2 (\<lambda>res f. r_folder res = basename f) rs (folders self)"
    by (intro exI [of _ rs]) simp
  from l rs(1) show "length (results self') = length (results self) + length (folders self)"
    by (auto dest: list_all2_lengthD)
qed

theorem one_outcome_per_unit_witness:
  "(\<exists>self' w'. process_folders_parallel example_engine_a_fails [1]
       (example_runner\<lparr>parallel := True\<rparr>) example_world = (Ok (), self', w')
      \<and> length (results self') =
          length (results (example_runner\<lparr>parallel := True\<rparr>))
          + length (folders (example_runner\<lparr>parallel := True\<rparr>)))
   \<and> (\<exists>self' w'. process_folders_sequential example_engine_ok example_runner example_world
        = (Ok (), self', w')
      \<and> length (results self') = length (results example_runner) + length (folders example_runner))"
proof -
  from parallel_example obtain p1 q1 where
    1: "process_folders_parallel example_engine_a_fails [1]
       (example_runner\<lparr>parallel := True\<rparr>) example_world = (Ok (), p1, q1)" by blast
  from sequential_example_ok obtain p2 q2 where
    2: "process_folders_sequential example_engine_ok example_runner example_world
        = (Ok (), p2, q2)" by blast
  show ?thesis
    using one_outcome_per_unit [of example_engine_a_fails "[1]"
              "example_runner\<lparr>parallel := True\<rparr>" example_world "Ok ()" p1 q1 "()"]
          one_outcome_per_unit [of example_engine_ok "[]" example_runner example_world
              "Ok ()" p2 q2 "()"] 1 2
    by blast
qed

theorem sequential_fail_fast_drops_units:
  "\<not> parallel example_runner \<and> \<not> continue_on_error example_runner
   \<and> length (results (fst (snd (process_folders_sequential example_engine_a_fails
       example_runner example_world)))) = 1
   \<and> length (folders example_runner) = 2"
  by (simp add: sequential_example_a_fails folders_example) (simp add: example_runner_def)












end
